theory Spec2Isabelle
  imports Complex_Main "HOL-Library.Sublist"
begin

section \<open>The throttle of \<^verbatim>\<open>throttle.ts\<close>\<close>

text \<open>
  \<^verbatim>\<open>throttle(fn, wait_ms)\<close> closes over two variables, \<^verbatim>\<open>timeoutId\<close> and
  \<^verbatim>\<open>cachedResult\<close>, and talks to two services of the JavaScript run time: promises
  and \<^verbatim>\<open>setTimeout\<close>/\<^verbatim>\<open>clearTimeout\<close>. The model keeps all of it in one record
  that every operation takes and returns.

  \<^item> A promise is identified by its index in \<open>promises\<close>; its entry is \<open>None\<close> while
    it is pending and \<open>Some\<close> outcome once settled. The promise that \<^verbatim>\<open>fn()\<close> returns
    and the one \<^verbatim>\<open>.finally\<close> derives from it are one entry: the derived promise
    settles with the outcome of the first, after the callback has run.
  \<^item> \<open>timers\<close> lists the pending time-outs as (handle, due time), in the order they
    were armed; \<open>now\<close> is the clock in milliseconds.
  \<^item> \<open>fn_calls\<close> counts the invocations of \<^verbatim>\<open>fn\<close>.
\<close>

datatype ('a, 'e) outcome = Fulfilled 'a | Rejected 'e

record ('a, 'e) throttle_state =
  now :: nat
  timers :: "(nat \<times> nat) list"
  next_timer :: nat
  promises :: "('a, 'e) outcome option list"
  fn_calls :: nat
  timeoutId :: "nat option"
  cachedResult :: "nat option"

text \<open>The state right after \<^verbatim>\<open>throttle(fn, wait_ms)\<close> has returned.\<close>

definition throttle :: "('a, 'e) throttle_state" where
  "throttle = \<lparr>now = 0, timers = [], next_timer = 0, promises = [], fn_calls = 0,
               timeoutId = None, cachedResult = None\<rparr>"

text \<open>\<^verbatim>\<open>clearTimeout(h)\<close>: the time-out no longer fires; a handle that is not pending
  (already fired, or cleared before) is ignored.\<close>

definition clearTimeout :: "nat \<Rightarrow> (nat \<times> nat) list \<Rightarrow> (nat \<times> nat) list" where
  "clearTimeout h ts = filter (\<lambda>t. fst t \<noteq> h) ts"

text \<open>
  \<^verbatim>\<open>
  function reset() {
    if (timeoutId) {
      clearTimeout(timeoutId);
    }
    timeoutId = cachedResult = undefined;
  }
  \<close>
\<close>

definition reset :: "('a, 'e) throttle_state \<Rightarrow> ('a, 'e) throttle_state" where
  "reset s =
     s\<lparr>timers := (case timeoutId s of None \<Rightarrow> timers s | Some h \<Rightarrow> clearTimeout h (timers s)),
       timeoutId := None,
       cachedResult := None\<rparr>"

text \<open>
  \<^verbatim>\<open>
  const doThrottle = () => {
    if (!cachedResult) {
      cachedResult = fn().finally(() => {
        timeoutId = setTimeout(reset, wait_ms);
      });
    }
    return cachedResult;
  };
  \<close>
  The call returns the promise; the callback of \<^verbatim>\<open>finally\<close> is \<open>settle\<close> below.
\<close>

definition doThrottle :: "('a, 'e) throttle_state \<Rightarrow> nat \<times> ('a, 'e) throttle_state" where
  "doThrottle s =
     (case cachedResult s of
        None \<Rightarrow>
          (let p = length (promises s)
           in (p, s\<lparr>promises := promises s @ [None],
                     fn_calls := fn_calls s + 1,
                     cachedResult := Some p\<rparr>))
      | Some p \<Rightarrow> (p, s))"

text \<open>
  \<^verbatim>\<open>setTimeout(callback, ms)\<close> of Node: a delay that is not between 1 and
  \<open>2^31 - 1\<close> milliseconds is set to 1.
\<close>

definition TIMEOUT_MAX :: nat where
  "TIMEOUT_MAX = 2147483647"

definition timeout_delay :: "nat \<Rightarrow> nat" where
  "timeout_delay ms = (if 1 \<le> ms \<and> ms \<le> TIMEOUT_MAX then ms else 1)"

text \<open>
  The fetch behind promise \<open>p\<close> settles with outcome \<open>r\<close>. The callback of
  \<^verbatim>\<open>finally\<close> runs on success and on failure alike: it arms a new time-out with
  \<^verbatim>\<open>setTimeout(reset, wait_ms)\<close> from the current time and stores its handle in
  \<^verbatim>\<open>timeoutId\<close>. It does not touch \<^verbatim>\<open>cachedResult\<close>, and it does not look whether
  \<open>p\<close> still is the cached promise. A promise settles once only.
\<close>

definition settle ::
  "nat \<Rightarrow> nat \<Rightarrow> ('a, 'e) outcome \<Rightarrow> ('a, 'e) throttle_state \<Rightarrow> ('a, 'e) throttle_state" where
  "settle wait_ms p r s =
     (if p < length (promises s) \<and> promises s ! p = None
      then s\<lparr>promises := (promises s)[p := Some r],
             timers := timers s @ [(next_timer s, now s + timeout_delay wait_ms)],
             next_timer := next_timer s + 1,
             timeoutId := Some (next_timer s)\<rparr>
      else s)"

text \<open>
  The passage of time. The run time fires a pending time-out when the clock reaches
  its due time, the earliest first and, among equal due times, the one armed first.
  Every time-out of the throttle was armed with \<^verbatim>\<open>reset\<close> as its callback.
\<close>

fun earliest :: "(nat \<times> nat) list \<Rightarrow> (nat \<times> nat) option" where
  "earliest [] = None"
| "earliest (x # xs) =
     (case earliest xs of
        None \<Rightarrow> Some x
      | Some y \<Rightarrow> if snd y < snd x then Some y else Some x)"

definition next_due :: "nat \<Rightarrow> (nat \<times> nat) list \<Rightarrow> (nat \<times> nat) option" where
  "next_due t ts =
     (case earliest ts of
        None \<Rightarrow> None
      | Some x \<Rightarrow> if snd x \<le> t then Some x else None)"

definition fire :: "nat \<times> nat \<Rightarrow> ('a, 'e) throttle_state \<Rightarrow> ('a, 'e) throttle_state" where
  "fire x s = reset (s\<lparr>now := max (now s) (snd x), timers := clearTimeout (fst x) (timers s)\<rparr>)"

lemma earliest_mem: "earliest ts = Some x \<Longrightarrow> x \<in> set ts"
  by (induction ts arbitrary: x) (auto split: option.splits if_splits)

lemma clearTimeout_le: "length (clearTimeout h ts) \<le> length ts"
  by (simp add: clearTimeout_def)

lemma clearTimeout_less: "x \<in> set ts \<Longrightarrow> length (clearTimeout (fst x) ts) < length ts"
  unfolding clearTimeout_def
  by (induction ts) (auto simp: less_Suc_eq_le)

lemma fire_less:
  assumes "next_due t (timers s) = Some x"
  shows "length (timers (fire x s)) < length (timers s)"
proof -
  from assms have "x \<in> set (timers s)"
    by (auto simp: next_due_def dest: earliest_mem split: option.splits if_splits)
  then have "length (clearTimeout (fst x) (timers s)) < length (timers s)"
    by (rule clearTimeout_less)
  moreover have "length (timers (fire x s)) \<le> length (clearTimeout (fst x) (timers s))"
    by (simp add: fire_def reset_def clearTimeout_le split: option.splits)
  ultimately show ?thesis by simp
qed

function advance_to :: "nat \<Rightarrow> ('a, 'e) throttle_state \<Rightarrow> ('a, 'e) throttle_state" where
  "advance_to t s =
     (case next_due t (timers s) of
        None \<Rightarrow> s\<lparr>now := max (now s) t\<rparr>
      | Some x \<Rightarrow> advance_to t (fire x s))"
  by pat_completeness auto
termination
  by (relation "measure (\<lambda>(t, s). length (timers s))") (auto simp: fire_less)

declare advance_to.simps [simp del]

definition advance :: "nat \<Rightarrow> ('a, 'e) throttle_state \<Rightarrow> ('a, 'e) throttle_state" where
  "advance d s = advance_to (now s + d) s"

text \<open>
  A history of the throttle: calls of the throttled function and of \<^verbatim>\<open>reset\<close> by
  the program, settlements of fetches and the passage of time by the environment.
  \<open>exec\<close> returns the promises that the \<open>Get\<close> calls returned, in order, and the
  final state.
\<close>

datatype ('a, 'e) event = Get | Reset | Settle nat "('a, 'e) outcome" | Advance nat

fun exec ::
  "nat \<Rightarrow> ('a, 'e) event list \<Rightarrow> ('a, 'e) throttle_state \<Rightarrow> nat list \<times> ('a, 'e) throttle_state" where
  "exec wait_ms [] s = ([], s)"
| "exec wait_ms (Get # es) s =
     (case doThrottle s of (p, s') \<Rightarrow>
        (case exec wait_ms es s' of (ps, s'') \<Rightarrow> (p # ps, s'')))"
| "exec wait_ms (Reset # es) s = exec wait_ms es (reset s)"
| "exec wait_ms (Settle p r # es) s = exec wait_ms es (settle wait_ms p r s)"
| "exec wait_ms (Advance d # es) s = exec wait_ms es (advance d s)"

text \<open>
  Three measures of a history: whether an event is a call of the throttled function
  or the passage of time (neither a \<^verbatim>\<open>reset()\<close> nor a settlement), the time that
  passes in a history, and the number of calls in it.
\<close>

fun quiet :: "('a, 'e) event \<Rightarrow> bool" where
  "quiet Get = True"
| "quiet (Advance d) = True"
| "quiet Reset = False"
| "quiet (Settle p r) = False"

fun elapsed :: "('a, 'e) event list \<Rightarrow> nat" where
  "elapsed [] = 0"
| "elapsed (Advance d # es) = d + elapsed es"
| "elapsed (e # es) = elapsed es"

fun gets :: "('a, 'e) event list \<Rightarrow> nat" where
  "gets [] = 0"
| "gets (Get # es) = Suc (gets es)"
| "gets (e # es) = gets es"

text \<open>
  A fetch is in flight when some promise is pending. A history is calm from a state
  when none of its \<^verbatim>\<open>reset()\<close> calls comes while a fetch is in flight.
\<close>

definition in_flight :: "('a, 'e) throttle_state \<Rightarrow> bool" where
  "in_flight s \<longleftrightarrow> None \<in> set (promises s)"

fun calm :: "nat \<Rightarrow> ('a, 'e) event list \<Rightarrow> ('a, 'e) throttle_state \<Rightarrow> bool" where
  "calm wait_ms [] s = True"
| "calm wait_ms (Get # es) s = calm wait_ms es (snd (doThrottle s))"
| "calm wait_ms (Reset # es) s = (\<not> in_flight s \<and> calm wait_ms es (reset s))"
| "calm wait_ms (Settle p r # es) s = calm wait_ms es (settle wait_ms p r s)"
| "calm wait_ms (Advance d # es) s = calm wait_ms es (advance d s)"

text \<open>
  The states of calm histories: the only promise that can be pending is the cached
  one; no time-out is pending while nothing is cached or the cached promise is
  pending; and once the cached promise has settled, the one pending time-out is the
  one whose handle \<^verbatim>\<open>timeoutId\<close> holds.
\<close>

definition tidy :: "('a, 'e) throttle_state \<Rightarrow> bool" where
  "tidy s \<longleftrightarrow>
     (case cachedResult s of
        None \<Rightarrow> timers s = [] \<and> \<not> in_flight s
      | Some p \<Rightarrow>
          p < length (promises s) \<and>
          (\<forall>q < length (promises s). promises s ! q = None \<longrightarrow> q = p) \<and>
          (case promises s ! p of
             None \<Rightarrow> timers s = []
           | Some r \<Rightarrow> (\<exists>h due. timers s = [(h, due)] \<and> timeoutId s = Some h)))"

section \<open>The status document of \<^verbatim>\<open>houseStatus.ts\<close>\<close>

text \<open>
  What JavaScript raises where the source reads a property of \<^verbatim>\<open>undefined\<close> is a
  \<^verbatim>\<open>TypeError\<close>; it carries the name of the property that was read. A failed
  HTTP request rejects with the error of the HTTP library. \<open>FeatureNotFound\<close> is the
  error the specification names for a zone without the feature; no statement of the
  source constructs it.
\<close>

datatype error = TypeError string | AxiosError string | FeatureNotFound

text \<open>
  A JavaScript \<^verbatim>\<open>number\<close>: not-a-number, the two infinities, or a finite number,
  taken as a real. Rounding to double precision, overflow of a finite result and the
  sign of zero are left out; none of them turns a number into not-a-number or back.
\<close>

datatype jsnum = NaN | Finite real | PosInf | NegInf



























definition DEVICE_ITEM_TYPE :: string where
  "DEVICE_ITEM_TYPE = ''application/vnd.nexia.device+json''"

definition THERMOSTAT_DEVICE_TYPE :: string where
  "THERMOSTAT_DEVICE_TYPE = ''xxl_thermostat''"

datatype MODE = COOL | HEAT | AUTO | OFF

text \<open>
  The interfaces at the end of \<^verbatim>\<open>houseStatus.ts\<close>, with the fields the classes read.
  A feature is an entry of \<^verbatim>\<open>features\<close>, found by its \<^verbatim>\<open>name\<close>; \<open>actions\<close> maps an
  action name to its \<^verbatim>\<open>href\<close>.
\<close>

record Feature =
  f_name :: string
  actions :: "(string \<times> string) list"
  system_status :: string

record StatusZone =
  z_id :: int
  z_name :: string
  current_zone_mode :: MODE
  temperature :: jsnum
  setpoints_heat :: jsnum
  setpoints_cool :: jsnum
  features :: "Feature list"

record StatusThermostat =
  d_id :: int
  d_name :: string
  d_type :: string
  has_outdoor_temperature :: bool
  outdoor_temperature :: string
  has_indoor_humidity :: bool
  indoor_humidity :: string
  zones :: "StatusZone list"

record StatusChild =
  item_type :: string
  items :: "StatusThermostat list"

text \<open>\<open>child\<close> is \<^verbatim>\<open>result._links.child\<close>.\<close>

record Status =
  child :: "StatusChild list"

datatype Thermostat = Thermostat (t_raw: StatusThermostat)

datatype Zone = Zone (z_raw: StatusZone)

text \<open>
  \<^verbatim>\<open>
  thermostats(): Thermostat[] {
    const children = this.raw.result._links.child;
    const found = children.find(c => c.data.item_type === DEVICE_ITEM_TYPE) as StatusChildDevice | undefined;
    const dev = found?.data.items.filter(d => d.type === THERMOSTAT_DEVICE_TYPE) as StatusThermostat[];
    return dev.map(d => new Thermostat(d));
  }
  \<close>
  \<^verbatim>\<open>found?.\<close> gives \<^verbatim>\<open>undefined\<close> when nothing was found, and \<^verbatim>\<open>dev.map\<close> then reads
  \<^verbatim>\<open>map\<close> of \<^verbatim>\<open>undefined\<close>. \<^verbatim>\<open>MobileClient.thermostats\<close> of the client that owns the
  cache has the same body, on the document that \<^verbatim>\<open>status()\<close> resolves to.
\<close>

definition thermostats :: "Status \<Rightarrow> error + Thermostat list" where
  "thermostats raw =
     (let children = child raw;
          found = find (\<lambda>c. item_type c = DEVICE_ITEM_TYPE) children;
          dev = map_option (\<lambda>c. filter (\<lambda>d. d_type d = THERMOSTAT_DEVICE_TYPE) (items c)) found
      in case dev of
           None \<Rightarrow> Inl (TypeError ''map'')
         | Some ds \<Rightarrow> Inr (map Thermostat ds))"





section \<open>The client that owns the cache\<close>












section \<open>The client without a cache, and the platform\<close>








section \<open>Example data\<close>

text \<open>A house with two thermostats and a sensor, and zones with and without features.\<close>

definition mode_feature :: Feature where
  "mode_feature =
     \<lparr>f_name = ''thermostat_mode'',
      actions = [(''update_thermostat_mode'', ''https://www.mynexia.com/mobile/xxl_zones/10/zone_mode'')],
      system_status = []\<rparr>"

definition setpoint_feature :: Feature where
  "setpoint_feature =
     \<lparr>f_name = ''thermostat'',
      actions = [(''set_cool_setpoint'', ''https://www.mynexia.com/mobile/xxl_zones/10/setpoints''),
                 (''set_heat_setpoint'', ''https://www.mynexia.com/mobile/xxl_zones/10/setpoints'')],
      system_status = ''System Idle''\<rparr>"

definition example_zone :: "Feature list \<Rightarrow> Zone" where
  "example_zone fs =
     Zone \<lparr>z_id = 10, z_name = ''NativeZone'', current_zone_mode = COOL,
           temperature = Finite 75, setpoints_heat = Finite 68, setpoints_cool = Finite 72,
           features = fs\<rparr>"

definition example_device :: "int \<Rightarrow> string \<Rightarrow> StatusThermostat" where
  "example_device i ty =
     \<lparr>d_id = i, d_name = ''Upstairs'', d_type = ty,
      has_outdoor_temperature = True, outdoor_temperature = ''--'',
      has_indoor_humidity = False, indoor_humidity = ''45'',
      zones = [z_raw (example_zone [setpoint_feature, mode_feature])]\<rparr>"

definition example_house :: Status where
  "example_house =
     \<lparr>child =
        [\<lparr>item_type = ''application/vnd.nexia.collection+json'', items = []\<rparr>,
         \<lparr>item_type = ''application/vnd.nexia.device+json'',
          items = [example_device 1 ''xxl_thermostat'', example_device 2 ''xxl_zone_sensor'',
                   example_device 3 ''xxl_thermostat'']\<rparr>]\<rparr>"

text \<open>
  The throttle of a client before its first call, and a client one of whose calls of
  \<^verbatim>\<open>status()\<close> has been answered with the example house: the document is cached
  and the time-out is pending.
\<close>

definition fresh_cache :: "(Status, error) throttle_state" where
  "fresh_cache = throttle"



section \<open>Properties of the throttle\<close>

lemma reset_reset: "reset (reset s) = reset s"
  by (simp add: reset_def)

lemma reset_empty: "timeoutId s = None \<Longrightarrow> cachedResult s = None \<Longrightarrow> reset s = s"
  by (simp add: reset_def)

lemma doThrottle_cached: "cachedResult s = Some p \<Longrightarrow> doThrottle s = (p, s)"
  by (simp add: doThrottle_def)

lemma doThrottle_empty:
  "cachedResult s = None \<Longrightarrow>
   doThrottle s =
     (length (promises s),
      s\<lparr>promises := promises s @ [None], fn_calls := fn_calls s + 1,
        cachedResult := Some (length (promises s))\<rparr>)"
  by (simp add: doThrottle_def Let_def)

lemma exec_append:
  "exec w (es @ es') s =
     (case exec w es s of (ps, s') \<Rightarrow> (case exec w es' s' of (ps', s'') \<Rightarrow> (ps @ ps', s'')))"
  by (induction w es s rule: exec.induct) (simp_all split: prod.splits)

lemma advance_no_timer: "timers s = [] \<Longrightarrow> advance d s = s\<lparr>now := now s + d\<rparr>"
  by (simp add: advance_def advance_to.simps next_due_def)

lemma advance_before_due:
  "timers s = [(h, due)] \<Longrightarrow> now s + d < due \<Longrightarrow> advance d s = s\<lparr>now := now s + d\<rparr>"
  by (simp add: advance_def advance_to.simps next_due_def)

lemma advance_past_due:
  assumes "timers s = [(h, due)]" and "timeoutId s = Some h" and "due \<le> now s + d"
  shows "advance d s = s\<lparr>now := now s + d, timers := [], timeoutId := None, cachedResult := None\<rparr>"
proof -
  have 1: "next_due (now s + d) (timers s) = Some (h, due)"
    using assms by (simp add: next_due_def)
  have 2: "fire (h, due) s = s\<lparr>now := max (now s) due, timers := [], timeoutId := None, cachedResult := None\<rparr>"
    using assms by (simp add: fire_def reset_def clearTimeout_def)
  have "advance d s = advance_to (now s + d) (fire (h, due) s)"
    using 1 by (simp add: advance_def advance_to.simps [of "now s + d" s])
  also have "\<dots> = s\<lparr>now := now s + d, timers := [], timeoutId := None, cachedResult := None\<rparr>"
    using assms(3) by (simp add: 2 advance_to.simps next_due_def max_def)
  finally show ?thesis .
qed

text \<open>While one time-out is pending and not yet due, calls and time change only the clock.\<close>

lemma exec_in_window:
  "cachedResult s = Some p \<Longrightarrow> timers s = [(h, due)] \<Longrightarrow> list_all quiet es \<Longrightarrow>
   now s + elapsed es < due \<Longrightarrow>
   exec w es s = (replicate (gets es) p, s\<lparr>now := now s + elapsed es\<rparr>)"
proof (induction es arbitrary: s)
  case Nil
  then show ?case by simp
next
  case (Cons e es)
  show ?case
  proof (cases e)
    case Get
    with Cons show ?thesis by (simp add: doThrottle_cached)
  next
    case (Advance d)
    with Cons.prems have a: "advance d s = s\<lparr>now := now s + d\<rparr>"
      by (simp add: advance_before_due)
    from Cons.prems Advance
    have "exec w es (s\<lparr>now := now s + d\<rparr>) =
            (replicate (gets es) p, (s\<lparr>now := now s + d\<rparr>)\<lparr>now := now (s\<lparr>now := now s + d\<rparr>) + elapsed es\<rparr>)"
      by (intro Cons.IH) simp_all
    with Advance a show ?thesis by (simp add: add.assoc)
  next
    case Reset
    with Cons.prems show ?thesis by simp
  next
    case (Settle q r)
    with Cons.prems show ?thesis by simp
  qed
qed

text \<open>Calls and time on a throttle with no time-out pending.\<close>

lemma exec_quiet_pending:
  "cachedResult s = Some p \<Longrightarrow> timers s = [] \<Longrightarrow> list_all quiet es \<Longrightarrow>
   exec w es s = (replicate (gets es) p, s\<lparr>now := now s + elapsed es\<rparr>)"
proof (induction es arbitrary: s)
  case Nil
  then show ?case by simp
next
  case (Cons e es)
  show ?case
  proof (cases e)
    case Get
    with Cons show ?thesis by (simp add: doThrottle_cached)
  next
    case (Advance d)
    from Cons.prems
    have "exec w es (s\<lparr>now := now s + d\<rparr>) =
            (replicate (gets es) p, (s\<lparr>now := now s + d\<rparr>)\<lparr>now := now (s\<lparr>now := now s + d\<rparr>) + elapsed es\<rparr>)"
      by (intro Cons.IH) simp_all
    with Advance Cons.prems show ?thesis by (simp add: advance_no_timer add.assoc)
  next
    case Reset
    with Cons.prems show ?thesis by simp
  next
    case (Settle q r)
    with Cons.prems show ?thesis by simp
  qed
qed

lemma exec_quiet_idle:
  "cachedResult s = None \<Longrightarrow> timers s = [] \<Longrightarrow> list_all quiet es \<Longrightarrow> 0 < gets es \<Longrightarrow>
   exec w es s =
     (replicate (gets es) (length (promises s)),
      s\<lparr>now := now s + elapsed es, promises := promises s @ [None],
        fn_calls := fn_calls s + 1, cachedResult := Some (length (promises s))\<rparr>)"
proof (induction es arbitrary: s)
  case Nil
  then show ?case by simp
next
  case (Cons e es)
  show ?case
  proof (cases e)
    case Get
    let ?s1 = "s\<lparr>promises := promises s @ [None], fn_calls := fn_calls s + 1,
                 cachedResult := Some (length (promises s))\<rparr>"
    from Cons.prems Get
    have "exec w es ?s1 = (replicate (gets es) (length (promises s)), ?s1\<lparr>now := now ?s1 + elapsed es\<rparr>)"
      by (intro exec_quiet_pending) simp_all
    with Get Cons.prems show ?thesis by (simp add: doThrottle_empty)
  next
    case (Advance d)
    let ?s1 = "s\<lparr>now := now s + d\<rparr>"
    from Cons.prems Advance
    have "exec w es ?s1 =
            (replicate (gets es) (length (promises ?s1)),
             ?s1\<lparr>now := now ?s1 + elapsed es, promises := promises ?s1 @ [None],
                 fn_calls := fn_calls ?s1 + 1, cachedResult := Some (length (promises ?s1))\<rparr>)"
      by (intro Cons.IH) simp_all
    with Advance Cons.prems show ?thesis by (simp add: advance_no_timer add.assoc)
  next
    case Reset
    with Cons.prems show ?thesis by simp
  next
    case (Settle q r)
    with Cons.prems show ?thesis by simp
  qed
qed

text \<open>A cycle: calls and time on an idle throttle, then the fetch settles.\<close>

lemma cycle_exec:
  assumes "cachedResult s = None" and "timers s = []" and "list_all quiet es0" and "0 < gets es0"
  shows "exec w (es0 @ [Settle (length (promises s)) r]) s =
           (replicate (gets es0) (length (promises s)),
            s\<lparr>now := now s + elapsed es0,
              promises := promises s @ [Some r],
              fn_calls := fn_calls s + 1,
              cachedResult := Some (length (promises s)),
              timers := [(next_timer s, now s + elapsed es0 + timeout_delay w)],
              next_timer := next_timer s + 1,
              timeoutId := Some (next_timer s)\<rparr>)"
  using assms by (simp add: exec_append exec_quiet_idle settle_def)

lemma window_hit:
  assumes "cachedResult s = Some p" and "timers s = [(h, now s + D)]"
    and "list_all quiet es" and "elapsed es < D"
  shows "exec w es s = (replicate (gets es) p, s\<lparr>now := now s + elapsed es\<rparr>)"
  using assms by (simp add: exec_in_window)

lemma window_miss:
  assumes "cachedResult s = Some p" and "timers s = [(h, now s + D)]" and "timeoutId s = Some h"
    and "list_all quiet es" and "elapsed es < D" and "D \<le> elapsed es + d"
  shows "exec w (es @ [Advance d, Get]) s =
           (replicate (gets es) p @ [length (promises s)],
            s\<lparr>now := now s + elapsed es + d, timers := [], timeoutId := None,
              promises := promises s @ [None], fn_calls := fn_calls s + 1,
              cachedResult := Some (length (promises s))\<rparr>)"
proof -
  let ?s1 = "s\<lparr>now := now s + elapsed es\<rparr>"
  have 1: "exec w es s = (replicate (gets es) p, ?s1)"
    using assms by (simp add: exec_in_window)
  have 2: "advance d ?s1 =
             ?s1\<lparr>now := now ?s1 + d, timers := [], timeoutId := None, cachedResult := None\<rparr>"
    using assms by (intro advance_past_due [where h = h and due = "now s + D"]) simp_all
  show ?thesis
    by (simp add: exec_append 1 2 doThrottle_empty)
qed

text \<open>Calm histories keep the throttle tidy.\<close>

lemma tidy_throttle: "tidy throttle"
  by (simp add: tidy_def throttle_def in_flight_def)

lemma tidy_now: "tidy (s\<lparr>now := t\<rparr>) = tidy s"
  by (simp add: tidy_def in_flight_def cong: option.case_cong)

lemma not_in_flight_nth:
  "\<not> in_flight s \<Longrightarrow> q < length (promises s) \<Longrightarrow> promises s ! q \<noteq> None"
  unfolding in_flight_def by (metis nth_mem)

lemma in_flight_nth:
  "in_flight s \<Longrightarrow> \<exists>q < length (promises s). promises s ! q = None"
  unfolding in_flight_def by (metis in_set_conv_nth)

lemma tidy_doThrottle:
  assumes "tidy s"
  shows "tidy (snd (doThrottle s))"
proof (cases "cachedResult s")
  case (Some p)
  with assms show ?thesis by (simp add: doThrottle_cached)
next
  case None
  let ?s' = "s\<lparr>promises := promises s @ [None], fn_calls := fn_calls s + 1,
               cachedResult := Some (length (promises s))\<rparr>"
  from assms None have t: "timers s = []" and nf: "\<not> in_flight s"
    by (simp_all add: tidy_def)
  have "\<forall>q < length (promises ?s'). promises ?s' ! q = None \<longrightarrow> q = length (promises s)"
  proof (intro allI impI)
    fix q
    assume q: "q < length (promises ?s')" and n: "promises ?s' ! q = None"
    show "q = length (promises s)"
    proof (rule ccontr)
      assume "q \<noteq> length (promises s)"
      with q have "q < length (promises s)" by simp
      with n have "promises s ! q = None" by (simp add: nth_append)
      with nf \<open>q < length (promises s)\<close> show False
        using not_in_flight_nth by blast
    qed
  qed
  moreover have "promises ?s' ! length (promises s) = None"
    by simp
  moreover have "cachedResult ?s' = Some (length (promises s))" and "timers ?s' = []"
    and "length (promises s) < length (promises ?s')"
    using t by simp_all
  ultimately have "tidy ?s'"
    unfolding tidy_def by simp
  with None show ?thesis by (simp add: doThrottle_empty)
qed

lemma in_flight_reset: "in_flight (reset s) = in_flight s"
  by (simp add: in_flight_def reset_def)

lemma tidy_reset:
  assumes "tidy s" and "\<not> in_flight s"
  shows "tidy (reset s)"
proof -
  have "timers (reset s) = []"
  proof (cases "cachedResult s")
    case None
    with assms(1) have "timers s = []"
      by (simp add: tidy_def)
    then show ?thesis
      by (cases "timeoutId s") (simp_all add: reset_def clearTimeout_def)
  next
    case (Some p)
    with assms(1) have p: "p < length (promises s)"
      by (simp add: tidy_def)
    with assms(2) obtain r where r: "promises s ! p = Some r"
      using not_in_flight_nth by blast
    from assms(1) have "\<exists>h due. timers s = [(h, due)] \<and> timeoutId s = Some h"
      unfolding tidy_def by (simp add: Some r)
    then obtain h due where "timers s = [(h, due)]" and "timeoutId s = Some h"
      by blast
    then show ?thesis
      by (simp add: reset_def clearTimeout_def)
  qed
  moreover have "cachedResult (reset s) = None"
    by (simp add: reset_def)
  ultimately show ?thesis
    using assms(2) by (simp add: tidy_def in_flight_reset)
qed

lemma tidy_settle:
  assumes "tidy s"
  shows "tidy (settle w q r s)"
proof (cases "q < length (promises s) \<and> promises s ! q = None")
  case False
  then have "settle w q r s = s"
    unfolding settle_def by (rule if_not_P)
  with assms show ?thesis by simp
next
  case True
  then have "in_flight s"
    unfolding in_flight_def by (metis nth_mem)
  with assms obtain p where c: "cachedResult s = Some p"
    by (cases "cachedResult s") (simp_all add: tidy_def)
  from assms have p: "p < length (promises s)"
    and only: "\<forall>q < length (promises s). promises s ! q = None \<longrightarrow> q = p"
    unfolding tidy_def by (simp_all add: c)
  from only True have qp: "q = p" by blast
  from assms have t: "timers s = []"
    unfolding tidy_def using True by (simp add: c qp)
  let ?s' = "settle w q r s"
  have s': "cachedResult ?s' = Some p" "promises ?s' = (promises s)[p := Some r]"
    "timers ?s' = [(next_timer s, now s + timeout_delay w)]"
    "timeoutId ?s' = Some (next_timer s)"
    using True c t by (simp_all add: settle_def qp)
  have "\<forall>q < length (promises ?s'). promises ?s' ! q = None \<longrightarrow> q = p"
  proof (intro allI impI)
    fix i
    assume i: "i < length (promises ?s')" and n: "promises ?s' ! i = None"
    show "i = p"
    proof (rule ccontr)
      assume "i \<noteq> p"
      with n have "promises s ! i = None" by (simp add: s')
      with only i \<open>i \<noteq> p\<close> show False by (simp add: s')
    qed
  qed
  moreover have "promises ?s' ! p = Some r"
    using p by (simp add: s')
  moreover have "p < length (promises ?s')"
    using p by (simp add: s')
  ultimately show ?thesis
    unfolding tidy_def by (simp add: s'(1,3,4))
qed

lemma tidy_advance:
  assumes "tidy s"
  shows "tidy (advance d s)"
proof (cases "timers s = []")
  case True
  with assms show ?thesis
    by (simp add: advance_no_timer tidy_now)
next
  case False
  with assms obtain p where c: "cachedResult s = Some p"
    by (cases "cachedResult s") (simp_all add: tidy_def)
  from assms have p: "p < length (promises s)"
    and only: "\<forall>q < length (promises s). promises s ! q = None \<longrightarrow> q = p"
    unfolding tidy_def by (simp_all add: c)
  from assms False obtain r where r: "promises s ! p = Some r"
    unfolding tidy_def by (cases "promises s ! p") (simp_all add: c)
  from assms have "\<exists>h due. timers s = [(h, due)] \<and> timeoutId s = Some h"
    unfolding tidy_def by (simp add: c r)
  then obtain h due where hd: "timers s = [(h, due)]" "timeoutId s = Some h"
    by blast
  show ?thesis
  proof (cases "now s + d < due")
    case True
    with assms show ?thesis
      by (simp add: advance_before_due [OF hd(1)] tidy_now)
  next
    case False
    then have "due \<le> now s + d" by simp
    then have a: "advance d s =
        s\<lparr>now := now s + d, timers := [], timeoutId := None, cachedResult := None\<rparr>"
      by (rule advance_past_due [OF hd])
    have "\<not> in_flight s"
    proof
      assume "in_flight s"
      then obtain i where "i < length (promises s)" and "promises s ! i = None"
        using in_flight_nth by blast
      with only r show False by auto
    qed
    then show ?thesis
      by (simp add: a tidy_def in_flight_def)
  qed
qed

lemma tidy_exec: "tidy s \<Longrightarrow> calm w es s \<Longrightarrow> tidy (snd (exec w es s))"
proof (induction es arbitrary: s)
  case Nil
  then show ?case by simp
next
  case (Cons e es)
  show ?case
  proof (cases e)
    case Get
    with Cons.prems have "tidy (snd (exec w es (snd (doThrottle s))))"
      by (intro Cons.IH tidy_doThrottle) simp_all
    with Get show ?thesis by (simp add: case_prod_beta)
  next
    case Reset
    with Cons.prems show ?thesis by (simp add: Cons.IH tidy_reset)
  next
    case (Settle q r)
    with Cons.prems show ?thesis by (simp add: Cons.IH tidy_settle)
  next
    case (Advance d)
    with Cons.prems show ?thesis by (simp add: Cons.IH tidy_advance)
  qed
qed

text \<open>After a calm history of a new throttle, nothing cached means no time-out pending.\<close>

lemma calm_idle:
  assumes "calm w h throttle" and "s = snd (exec w h throttle)" and "cachedResult s = None"
  shows "timers s = []"
  using tidy_exec [OF tidy_throttle assms(1)] assms(2,3) by (simp add: tidy_def)

lemma advance_to_keeps:
  "promises (advance_to t s) = promises s \<and> fn_calls (advance_to t s) = fn_calls s \<and>
   (cachedResult s = None \<longrightarrow> cachedResult (advance_to t s) = None)"
proof (induction t s rule: advance_to.induct)
  case (1 t s)
  show ?case
  proof (cases "next_due t (timers s)")
    case None
    then show ?thesis by (simp add: advance_to.simps [of t s])
  next
    case (Some x)
    with 1 [OF Some] show ?thesis
      by (simp add: advance_to.simps [of t s] fire_def reset_def)
  qed
qed

lemmas run_simps =
  doThrottle_def settle_def timeout_delay_def TIMEOUT_MAX_def reset_def clearTimeout_def
  advance_def advance_to.simps next_due_def fire_def throttle_def in_flight_def

text \<open>
  C9. \<^verbatim>\<open>reset()\<close> is idempotent and safe on an empty cache: from every state, a
  second \<^verbatim>\<open>reset()\<close> right after a first changes nothing, and a \<^verbatim>\<open>reset()\<close> with
  no cached value and no time-out handle leaves the state as it is. \<open>reset\<close> is a
  total function: it has no failing branch.
\<close>

theorem reset_idempotent:
  "reset (reset s) = reset s \<and>
   (timeoutId s = None \<and> cachedResult s = None \<longrightarrow> reset s = s)"
  by (simp add: reset_reset reset_empty)

theorem reset_idempotent_witness:
  "reset (reset fresh_cache) = reset fresh_cache \<and>
   timeoutId fresh_cache = None \<and> cachedResult fresh_cache = None \<and>
   reset fresh_cache = fresh_cache"
  using reset_idempotent [of fresh_cache]
  by (simp add: fresh_cache_def throttle_def)







text \<open>
  C2, as stated, fails: a call issued one second after the fetch has failed, with a
  window of five seconds, returns the promise of the failed fetch and does not invoke
  \<^verbatim>\<open>fn\<close>; the rejected promise is still the cached result after the failure.
\<close>

theorem failure_cached_counterexample:
  "fst (exec 5000 [Get, Settle 0 (Rejected (AxiosError ''503'')), Advance 1000, Get] fresh_cache)
     = [0, 0] \<and>
   fn_calls (snd (exec 5000 [Get, Settle 0 (Rejected (AxiosError ''503'')), Advance 1000, Get]
                   fresh_cache)) = 1 \<and>
   cachedResult (snd (exec 5000 [Get, Settle 0 (Rejected (AxiosError ''503''))] fresh_cache))
     = Some 0"
  by (simp add: fresh_cache_def run_simps)

text \<open>
  C2, amended. On a throttle whose \<^verbatim>\<open>reset()\<close> has not been called while a fetch
  was in flight (a calm history \<open>h\<close> of a new throttle): when the fetch that the
  calls of \<open>es0\<close> started and wait for fails, every one of those callers holds the
  promise that is rejected with the failure. The rejected promise stays the cached
  result until the time-out armed at the failure fires, \<open>timeout_delay w\<close> later
  (\<open>w\<close> for a window from 1 to \<open>2^31 - 1\<close> milliseconds): every call issued before
  that, with no \<^verbatim>\<open>reset()\<close> in between, returns that same rejected promise without
  invoking \<^verbatim>\<open>fn\<close>, and the first call after the delay has passed invokes \<^verbatim>\<open>fn\<close>
  again.
\<close>

theorem failure_cached_for_window:
  assumes "calm w h throttle" and "s = snd (exec w h throttle)" and "cachedResult s = None"
    and "list_all quiet es0" and "0 < gets es0"
    and "c = es0 @ [Settle (length (promises s)) (Rejected e)]"
  shows "fst (exec w c s) = replicate (gets es0) (length (promises s)) \<and>
         promises (snd (exec w c s)) ! length (promises s) = Some (Rejected e) \<and>
         cachedResult (snd (exec w c s)) = Some (length (promises s)) \<and>
         timers (snd (exec w c s)) = [(next_timer s, now s + elapsed es0 + timeout_delay w)] \<and>
         (1 \<le> w \<and> w \<le> TIMEOUT_MAX \<longrightarrow> timeout_delay w = w) \<and>
         (list_all quiet es \<and> elapsed es < timeout_delay w \<longrightarrow>
            fst (exec w (c @ es) s) = replicate (gets es0 + gets es) (length (promises s)) \<and>
            fn_calls (snd (exec w (c @ es) s)) = fn_calls s + 1) \<and>
         (list_all quiet es \<and> elapsed es < timeout_delay w \<and> timeout_delay w \<le> elapsed es + d \<longrightarrow>
            fn_calls (snd (exec w (c @ es @ [Advance d, Get]) s)) = fn_calls s + 2)"
proof -
  let ?p = "length (promises s)"
  let ?D = "timeout_delay w"
  let ?s3 = "s\<lparr>now := now s + elapsed es0,
              promises := promises s @ [Some (Rejected e)],
              fn_calls := fn_calls s + 1,
              cachedResult := Some ?p,
              timers := [(next_timer s, now s + elapsed es0 + ?D)],
              next_timer := next_timer s + 1,
              timeoutId := Some (next_timer s)\<rparr>"
  have idle: "timers s = []"
    using assms(1-3) by (rule calm_idle)
  have c: "exec w c s = (replicate (gets es0) ?p, ?s3)"
    unfolding assms(6) by (rule cycle_exec [OF assms(3) idle assms(4,5)])
  have split: "exec w (c @ xs) s = (replicate (gets es0) ?p @ fst (exec w xs ?s3), snd (exec w xs ?s3))"
    for xs
    unfolding exec_append [of w c] c by (simp add: case_prod_beta)
  have hit: "exec w es ?s3 = (replicate (gets es) ?p, ?s3\<lparr>now := now ?s3 + elapsed es\<rparr>)"
    if "list_all quiet es" "elapsed es < ?D"
    using that by (intro window_hit [where h = "next_timer s" and D = ?D]) simp_all
  have miss: "fn_calls (snd (exec w (es @ [Advance d, Get]) ?s3)) = fn_calls ?s3 + 1"
    if "list_all quiet es" "elapsed es < ?D" "?D \<le> elapsed es + d"
    using that
    by (subst window_miss [where h = "next_timer s" and p = ?p and D = ?D]) simp_all
  have "fst (exec w c s) = replicate (gets es0) ?p"
    and "promises (snd (exec w c s)) ! ?p = Some (Rejected e)"
    and "cachedResult (snd (exec w c s)) = Some ?p"
    and "timers (snd (exec w c s)) = [(next_timer s, now s + elapsed es0 + ?D)]"
    unfolding c by simp_all
  moreover have "timeout_delay w = w" if "1 \<le> w" "w \<le> TIMEOUT_MAX"
    using that by (simp add: timeout_delay_def)
  moreover have "fst (exec w (c @ es) s) = replicate (gets es0 + gets es) ?p \<and>
      fn_calls (snd (exec w (c @ es) s)) = fn_calls s + 1"
    if "list_all quiet es" "elapsed es < ?D"
    unfolding split hit [OF that] by (simp add: replicate_add)
  moreover have "fn_calls (snd (exec w (c @ es @ [Advance d, Get]) s)) = fn_calls s + 2"
    if "list_all quiet es" "elapsed es < ?D" "?D \<le> elapsed es + d"
    using miss [OF that] unfolding split by simp
  ultimately show ?thesis by blast
qed

theorem failure_cached_for_window_witness:
  "calm 5000 [] fresh_cache \<and> cachedResult fresh_cache = None \<and>
   list_all quiet [Get, Advance 100, Get, Advance 200 :: (Status, error) event] \<and>
   0 < gets [Get, Advance 100, Get, Advance 200 :: (Status, error) event] \<and>
   (1::nat) \<le> 5000 \<and> 5000 \<le> TIMEOUT_MAX \<and>
   list_all quiet [Get, Advance 4999 :: (Status, error) event] \<and>
   elapsed [Get, Advance 4999 :: (Status, error) event] < timeout_delay 5000 \<and>
   timeout_delay 5000 \<le> elapsed [Get, Advance 4999 :: (Status, error) event] + 1 \<and>
   fst (exec 5000 ([Get, Advance 100, Get, Advance 200]
                    @ [Settle 0 (Rejected (AxiosError ''503''))]) fresh_cache) = [0, 0] \<and>
   fst (exec 5000 (([Get, Advance 100, Get, Advance 200]
                    @ [Settle 0 (Rejected (AxiosError ''503''))])
                    @ [Get, Advance 4999]) fresh_cache) = [0, 0, 0] \<and>
   fn_calls (snd (exec 5000 (([Get, Advance 100, Get, Advance 200]
                    @ [Settle 0 (Rejected (AxiosError ''503''))])
                    @ [Get, Advance 4999]) fresh_cache)) = 1 \<and>
   fn_calls (snd (exec 5000 (([Get, Advance 100, Get, Advance 200]
                    @ [Settle 0 (Rejected (AxiosError ''503''))])
                    @ [Get, Advance 4999] @ [Advance 1, Get]) fresh_cache)) = 2"
  using failure_cached_for_window
    [where w = 5000 and h = "[]" and s = fresh_cache
       and ?es0.0 = "[Get, Advance 100, Get, Advance 200]"
       and c = "[Get, Advance 100, Get, Advance 200] @ [Settle 0 (Rejected (AxiosError ''503''))]"
       and e = "AxiosError ''503''"
       and es = "[Get, Advance 4999]" and d = 1]
  by (simp add: fresh_cache_def run_simps)

text \<open>
  C5, as stated, fails: after a call, a \<^verbatim>\<open>reset()\<close> while the fetch is in flight and
  the success of that fetch, the cache holds nothing, and a call one second later
  (window five seconds) invokes \<^verbatim>\<open>fn\<close> a second time and returns a new promise.
\<close>

theorem reset_in_flight_counterexample:
  "fst (exec 5000 [Get, Reset, Settle 0 (Fulfilled example_house), Advance 1000, Get] fresh_cache)
     = [0, 1] \<and>
   fn_calls (snd (exec 5000 [Get, Reset, Settle 0 (Fulfilled example_house), Advance 1000, Get]
                   fresh_cache)) = 2 \<and>
   cachedResult (snd (exec 5000 [Get, Reset, Settle 0 (Fulfilled example_house)] fresh_cache))
     = None"
  by (simp add: fresh_cache_def run_simps)

text \<open>
  C5, amended. A \<^verbatim>\<open>reset()\<close> while the fetch behind the cached promise \<open>p\<close> is in
  flight does not cancel the fetch: when it succeeds, \<open>p\<close> is fulfilled for the
  callers that hold it, and a time-out is armed and its handle stored. But the
  promise is no longer the cached result and the result is not stored: a later call,
  whenever it is issued, invokes \<^verbatim>\<open>fn\<close> again and returns a new promise.
\<close>

theorem reset_in_flight:
  assumes "cachedResult s = Some p" and "p < length (promises s)" and "promises s ! p = None"
  shows "promises (snd (exec w [Reset, Settle p (Fulfilled v)] s)) ! p = Some (Fulfilled v) \<and>
         cachedResult (snd (exec w [Reset, Settle p (Fulfilled v)] s)) = None \<and>
         timeoutId (snd (exec w [Reset, Settle p (Fulfilled v)] s)) = Some (next_timer s) \<and>
         (next_timer s, now s + timeout_delay w)
           \<in> set (timers (snd (exec w [Reset, Settle p (Fulfilled v)] s))) \<and>
         fst (exec w [Reset, Settle p (Fulfilled v), Advance d, Get] s) = [length (promises s)] \<and>
         fn_calls (snd (exec w [Reset, Settle p (Fulfilled v), Advance d, Get] s)) = fn_calls s + 1"
proof -
  let ?s2 = "settle w p (Fulfilled v) (reset s)"
  have s2: "promises ?s2 = (promises s)[p := Some (Fulfilled v)]" "cachedResult ?s2 = None"
    "timeoutId ?s2 = Some (next_timer s)"
    "(next_timer s, now s + timeout_delay w) \<in> set (timers ?s2)"
    "fn_calls ?s2 = fn_calls s"
    using assms by (simp_all add: settle_def reset_def)
  have a: "promises (advance d ?s2) = promises ?s2" "fn_calls (advance d ?s2) = fn_calls ?s2"
    "cachedResult (advance d ?s2) = None"
    using advance_to_keeps [of "now ?s2 + d" ?s2] s2(2) by (simp_all add: advance_def)
  show ?thesis
    using assms(2) by (simp add: s2 a doThrottle_empty)
qed

theorem reset_in_flight_witness:
  "cachedResult (snd (doThrottle fresh_cache)) = Some 0 \<and>
   (0::nat) < length (promises (snd (doThrottle fresh_cache))) \<and>
   promises (snd (doThrottle fresh_cache)) ! 0 = None \<and>
   fst (exec 5000 [Reset, Settle 0 (Fulfilled example_house), Advance 1000, Get]
          (snd (doThrottle fresh_cache))) = [1] \<and>
   fn_calls (snd (exec 5000 [Reset, Settle 0 (Fulfilled example_house), Advance 1000, Get]
                   (snd (doThrottle fresh_cache)))) = 2"
  using reset_in_flight [where s = "snd (doThrottle fresh_cache)" and p = 0 and w = 5000
      and v = example_house and d = 1000]
  by (simp add: fresh_cache_def throttle_def doThrottle_def del: exec.simps)

section \<open>Properties of the status document\<close>

lemma find_first: "\<forall>x\<in>set pre. \<not> P x \<Longrightarrow> P c \<Longrightarrow> find P (pre @ c # rest) = Some c"
  by (induction pre) auto




























text \<open>
  C3. A document without a link to the device collection: \<^verbatim>\<open>found\<close> is
  \<^verbatim>\<open>undefined\<close>, the optional chain gives \<^verbatim>\<open>undefined\<close> for \<^verbatim>\<open>dev\<close>, and
  \<^verbatim>\<open>dev.map\<close> raises a \<^verbatim>\<open>TypeError\<close>: \<^verbatim>\<open>thermostats()\<close> does not return the empty
  list there.
\<close>

theorem thermostats_missing_link_raises:
  "thermostats \<lparr>child = [\<lparr>item_type = ''application/vnd.nexia.collection+json'', items = []\<rparr>]\<rparr>
     = Inl (TypeError ''map'')"
  by (simp add: thermostats_def DEVICE_ITEM_TYPE_def)

text \<open>
  C8. Device filtering keeps the order: when \<open>c\<close> is the first child link whose
  \<^verbatim>\<open>item_type\<close> is the device collection marker, \<^verbatim>\<open>thermostats()\<close> returns views of
  exactly the items of \<open>c\<close> whose \<^verbatim>\<open>type\<close> is the thermostat marker, in the order they
  have in \<open>c\<close>; no item of another type is among them.
\<close>

theorem thermostats_filter_order:
  assumes "child raw = pre @ c # rest"
    and "\<forall>x\<in>set pre. item_type x \<noteq> DEVICE_ITEM_TYPE"
    and "item_type c = DEVICE_ITEM_TYPE"
  shows "\<exists>ts. thermostats raw = Inr ts \<and>
           map t_raw ts = filter (\<lambda>d. d_type d = THERMOSTAT_DEVICE_TYPE) (items c) \<and>
           subseq (map t_raw ts) (items c) \<and>
           (\<forall>t\<in>set ts. d_type (t_raw t) = THERMOSTAT_DEVICE_TYPE)"
proof -
  have "find (\<lambda>x. item_type x = DEVICE_ITEM_TYPE) (child raw) = Some c"
    using assms by (simp add: find_first)
  then have "thermostats raw = Inr (map Thermostat (filter (\<lambda>d. d_type d = THERMOSTAT_DEVICE_TYPE) (items c)))"
    by (simp add: thermostats_def)
  then show ?thesis
    by (auto simp: comp_def)
qed

theorem thermostats_filter_order_witness:
  "child example_house =
     [\<lparr>item_type = ''application/vnd.nexia.collection+json'', items = []\<rparr>] @
     \<lparr>item_type = ''application/vnd.nexia.device+json'',
      items = [example_device 1 ''xxl_thermostat'', example_device 2 ''xxl_zone_sensor'',
               example_device 3 ''xxl_thermostat'']\<rparr> # [] \<and>
   thermostats example_house =
     Inr [Thermostat (example_device 1 ''xxl_thermostat''),
          Thermostat (example_device 3 ''xxl_thermostat'')]"
  using thermostats_filter_order
    [of example_house
        "[\<lparr>item_type = ''application/vnd.nexia.collection+json'', items = []\<rparr>]"
        "\<lparr>item_type = ''application/vnd.nexia.device+json'',
          items = [example_device 1 ''xxl_thermostat'', example_device 2 ''xxl_zone_sensor'',
                   example_device 3 ''xxl_thermostat'']\<rparr>"
        "[]"]
  by (simp add: example_house_def example_device_def thermostats_def DEVICE_ITEM_TYPE_def
        THERMOSTAT_DEVICE_TYPE_def)




section \<open>Properties of the client\<close>












end
